theory Spec2Isabelle
  imports Complex_Main
begin

section \<open>The election estimator of \<open>elections.py\<close>\<close>

text \<open>
  The script computes, from a Beta prior given by mean and standard deviation and from
  partial counts, the probability that a candidate wins. Python floats are modelled as
  real numbers: arithmetic is exact, and a division by zero raises
  \<open>ZeroDivisionError\<close> as Python's does.
\<close>

subsection \<open>Line styles\<close>

text \<open>
  \<open>line(i, total)\<close> returns a matplotlib style string. The three strings are the three
  roles of the specification: blue is the low role, red the high role, green the middle.
\<close>

definition LOW :: string where
  "LOW = ''b-''"

definition HIGH :: string where
  "HIGH = ''r-''"

definition MID :: string where
  "MID = ''g-''"

definition line :: "int \<Rightarrow> int \<Rightarrow> string" where
  "line i total_count =
     (if total_count = 2 then (if i \<noteq> 0 then ''r-'' else ''b-'')
      else
        let median = (real_of_int total_count - 1) / 2
        in if real_of_int i < median - 1 / 2 then ''b-''
           else if real_of_int i > median + 1 / 2 then ''r-''
           else ''g-'')"

subsection \<open>Prior parameters\<close>

datatype error = ZeroDivisionError

text \<open>
  \<open>alpha = mu ** 2 * ((1 - mu) / sigma ** 2 - 1 / mu)\<close> and
  \<open>beta = alpha * (1 / mu - 1)\<close>. The two divisions of the first line raise when
  \<open>sigma ** 2\<close> or \<open>mu\<close> is zero; nothing else is checked.
\<close>

definition alpha_beta :: "real \<Rightarrow> real \<Rightarrow> error + real \<times> real" where
  "alpha_beta mu sigma =
     (if sigma ^ 2 = 0 then Inl ZeroDivisionError
      else if mu = 0 then Inl ZeroDivisionError
      else
        let alpha = mu ^ 2 * ((1 - mu) / sigma ^ 2 - 1 / mu);
            beta = alpha * (1 / mu - 1)
        in Inr (alpha, beta))"

subsection \<open>Winning probabilities\<close>

text \<open>
  \<open>scipy.stats.beta(a, b).cdf(x)\<close> is library code. The estimator takes it as a
  parameter: a function of the two shape parameters and the point.
\<close>

type_synonym cdf_fun = "real \<Rightarrow> real \<Rightarrow> real \<Rightarrow> real"

text \<open>
  The loop over \<open>fractions_in_favor\<close>, with the list \<open>winning_ps\<close> it appends to as
  accumulator.
\<close>

fun winning_loop :: "cdf_fun \<Rightarrow> real \<Rightarrow> real \<Rightarrow> real \<Rightarrow> real list \<Rightarrow> real list \<Rightarrow> real list" where
  "winning_loop cdf prior_alpha prior_beta counted_votes [] winning_ps = winning_ps"
| "winning_loop cdf prior_alpha prior_beta counted_votes (fraction_in_favor # rest) winning_ps =
     (let votes_in_favor = counted_votes * fraction_in_favor;
          votes_against = counted_votes - votes_in_favor;
          p = 1 - cdf (prior_alpha + votes_in_favor) (prior_beta + votes_against) (1 / 2)
      in winning_loop cdf prior_alpha prior_beta counted_votes rest (winning_ps @ [p]))"

definition winning_probabilities ::
    "cdf_fun \<Rightarrow> real \<Rightarrow> real \<Rightarrow> real \<Rightarrow> real \<Rightarrow> real list \<Rightarrow> error + real list" where
  "winning_probabilities cdf prior_mu prior_sigma total_votes fraction_counted fractions_in_favor =
     (case alpha_beta prior_mu prior_sigma of
        Inl e \<Rightarrow> Inl e
      | Inr (prior_alpha, prior_beta) \<Rightarrow>
          let counted_votes = total_votes * fraction_counted
          in Inr (winning_loop cdf prior_alpha prior_beta counted_votes fractions_in_favor []))"

text \<open>
  The same loop, recording instead of the probabilities the shape parameters of every
  posterior distribution it builds with \<open>scipy.stats.beta\<close>, in order.
\<close>

fun posterior_loop :: "real \<Rightarrow> real \<Rightarrow> real \<Rightarrow> real list \<Rightarrow> (real \<times> real) list \<Rightarrow> (real \<times> real) list" where
  "posterior_loop prior_alpha prior_beta counted_votes [] dists = dists"
| "posterior_loop prior_alpha prior_beta counted_votes (fraction_in_favor # rest) dists =
     (let votes_in_favor = counted_votes * fraction_in_favor;
          votes_against = counted_votes - votes_in_favor
      in posterior_loop prior_alpha prior_beta counted_votes rest
           (dists @ [(prior_alpha + votes_in_favor, prior_beta + votes_against)]))"

definition posteriors :: "real \<Rightarrow> real \<Rightarrow> real \<Rightarrow> real \<Rightarrow> real list \<Rightarrow> error + (real \<times> real) list" where
  "posteriors prior_mu prior_sigma total_votes fraction_counted fractions_in_favor =
     (case alpha_beta prior_mu prior_sigma of
        Inl e \<Rightarrow> Inl e
      | Inr (prior_alpha, prior_beta) \<Rightarrow>
          let counted_votes = total_votes * fraction_counted
          in Inr (posterior_loop prior_alpha prior_beta counted_votes fractions_in_favor []))"

subsection \<open>The Beta distribution function\<close>

text \<open>
  The mathematical function that \<open>scipy.stats.beta(a, b).cdf\<close> approximates, for
  positive \<open>a\<close> and \<open>b\<close>: the distribution function of the density proportional to
  \<open>t powr (a - 1) * (1 - t) powr (b - 1)\<close> on the unit interval. It is built from power
  series, since they are what the library has in place of integrals.
  \<^item> \<open>kernel_coeff b n\<close> is the coefficient of \<open>t ^ n\<close> in the binomial series of
    \<open>(1 - t) powr (b - 1)\<close>, and \<open>kernel_series b\<close> is that series.
  \<^item> \<open>inc_beta a b x\<close> is the incomplete Beta function, the integral of the density
    kernel from \<open>0\<close> to \<open>x\<close>: the binomial series times \<open>t powr (a - 1)\<close>, integrated
    term by term. Its series converges for \<open>x < 1\<close>.
  \<^item> \<open>complete_beta a b\<close> is the integral over the whole interval, split at one half.
  \<^item> \<open>beta_cdf a b x\<close> is the incomplete function over the complete one, the latter
    split at \<open>x\<close> so that both series are used where they converge.
  The lemmas of the section on the Beta distribution function show that this is the
  function meant: \<open>beta_cdf a b\<close> is continuous on the unit interval, \<open>0\<close> at \<open>0\<close>,
  \<open>1\<close> at \<open>1\<close>, and its derivative inside is the density kernel over
  \<open>complete_beta a b\<close>.
\<close>

fun kernel_coeff :: "real \<Rightarrow> nat \<Rightarrow> real" where
  "kernel_coeff b 0 = 1"
| "kernel_coeff b (Suc n) = kernel_coeff b n * (real n + 1 - b) / (real n + 1)"

definition kernel_series :: "real \<Rightarrow> real \<Rightarrow> real" where
  "kernel_series b x = (\<Sum>n. kernel_coeff b n * x ^ n)"

definition inc_series :: "real \<Rightarrow> real \<Rightarrow> real \<Rightarrow> real" where
  "inc_series a b x = (\<Sum>n. kernel_coeff b n / (a + real n) * x ^ n)"

definition inc_beta :: "real \<Rightarrow> real \<Rightarrow> real \<Rightarrow> real" where
  "inc_beta a b x = x powr a * inc_series a b x"

definition complete_beta :: "real \<Rightarrow> real \<Rightarrow> real" where
  "complete_beta a b = inc_beta a b (1 / 2) + inc_beta b a (1 / 2)"

definition beta_cdf :: cdf_fun where
  "beta_cdf a b x =
     (if x \<le> 0 then 0
      else if 1 \<le> x then 1
      else inc_beta a b x / (inc_beta a b x + inc_beta b a (1 - x)))"

section \<open>Properties\<close>

subsection \<open>Helper lemmas\<close>

lemma alpha_beta_Inr:
  "mu \<noteq> 0 \<Longrightarrow> sigma \<noteq> 0 \<Longrightarrow>
   alpha_beta mu sigma =
     Inr (mu ^ 2 * ((1 - mu) / sigma ^ 2 - 1 / mu),
          mu ^ 2 * ((1 - mu) / sigma ^ 2 - 1 / mu) * (1 / mu - 1))"
  by (simp add: alpha_beta_def Let_def)

lemma alpha_beta_Inl_iff:
  "(alpha_beta mu sigma = Inl e) = (mu = 0 \<or> sigma = 0)"
  by (cases e) (auto simp: alpha_beta_def Let_def)

lemma winning_loop_acc:
  "winning_loop cdf a b c xs acc =
     acc @ map (\<lambda>x. 1 - cdf (a + c * x) (b + (c - c * x)) (1 / 2)) xs"
  by (induction xs arbitrary: acc) (simp_all add: Let_def)

lemma posterior_loop_acc:
  "posterior_loop a b c xs acc = acc @ map (\<lambda>x. (a + c * x, b + (c - c * x))) xs"
  by (induction xs arbitrary: acc) (simp_all add: Let_def)

lemma winning_probabilities_Inr:
  "alpha_beta mu sigma = Inr (a, b) \<Longrightarrow>
   winning_probabilities cdf mu sigma T f xs =
     Inr (map (\<lambda>x. 1 - cdf (a + T * f * x) (b + (T * f - T * f * x)) (1 / 2)) xs)"
  by (simp add: winning_probabilities_def winning_loop_acc Let_def)

lemma posteriors_Inr:
  "alpha_beta mu sigma = Inr (a, b) \<Longrightarrow>
   posteriors mu sigma T f xs =
     Inr (map (\<lambda>x. (a + T * f * x, b + (T * f - T * f * x))) xs)"
  by (simp add: posteriors_def posterior_loop_acc Let_def)

lemma alpha_beta_example: "alpha_beta (2 / 5) (1 / 10) = Inr (46 / 5, 69 / 5)"
  by (simp add: alpha_beta_def Let_def power2_eq_square)

lemma alpha_beta_example_half: "alpha_beta (1 / 2) (1 / 6) = Inr (4, 4)"
  by (simp add: alpha_beta_def Let_def power2_eq_square)

subsection \<open>The binomial series\<close>

text \<open>
  The series of \<open>kernel_coeff b\<close> converges inside the unit interval, by the ratio test,
  and its sum is \<open>(1 - x) powr (b - 1)\<close>: it solves the differential equation
  \<open>(1 - x) * y' = (1 - b) * y\<close> with \<open>y 0 = 1\<close>.
\<close>

lemma kernel_coeff_ratio:
  "\<bar>kernel_coeff b (Suc n)\<bar> \<le> (1 + \<bar>b\<bar> / (real n + 1)) * \<bar>kernel_coeff b n\<bar>"
proof -
  have pos: "0 < real n + 1" by simp
  have "\<bar>real n + 1 - b\<bar> \<le> real n + 1 + \<bar>b\<bar>" by simp
  then have "\<bar>real n + 1 - b\<bar> / (real n + 1) \<le> (real n + 1 + \<bar>b\<bar>) / (real n + 1)"
    by (rule divide_right_mono) simp
  also have "\<dots> = 1 + \<bar>b\<bar> / (real n + 1)"
    using pos by (simp add: field_simps)
  finally have r: "\<bar>real n + 1 - b\<bar> / (real n + 1) \<le> 1 + \<bar>b\<bar> / (real n + 1)" .
  have "\<bar>kernel_coeff b (Suc n)\<bar> = (\<bar>real n + 1 - b\<bar> / (real n + 1)) * \<bar>kernel_coeff b n\<bar>"
    by (simp add: abs_mult)
  also have "\<dots> \<le> (1 + \<bar>b\<bar> / (real n + 1)) * \<bar>kernel_coeff b n\<bar>"
    using r by (rule mult_right_mono) simp
  finally show ?thesis .
qed

lemma kernel_series_summable:
  fixes x :: real
  assumes x: "\<bar>x\<bar> < 1"
  shows "summable (\<lambda>n. kernel_coeff b n * x ^ n)"
proof (rule summable_ratio_test [where c = "(1 + \<bar>x\<bar>) / 2" and N = "nat \<lceil>2 * \<bar>b\<bar> / (1 - \<bar>x\<bar>)\<rceil>"])
  show "(1 + \<bar>x\<bar>) / 2 < 1" using x by simp
next
  fix n
  assume n: "nat \<lceil>2 * \<bar>b\<bar> / (1 - \<bar>x\<bar>)\<rceil> \<le> n"
  have pos: "0 < real n + 1" by simp
  have "2 * \<bar>b\<bar> / (1 - \<bar>x\<bar>) \<le> real n"
    using n by linarith
  then have nb: "2 * \<bar>b\<bar> \<le> real n * (1 - \<bar>x\<bar>)"
    using x by (simp add: field_simps)
  have "2 * \<bar>b\<bar> * \<bar>x\<bar> \<le> 2 * \<bar>b\<bar> * 1"
    using x by (intro mult_left_mono) simp_all
  with nb have "2 * \<bar>b\<bar> * \<bar>x\<bar> \<le> (real n + 1) * (1 - \<bar>x\<bar>)"
    using x by (simp add: algebra_simps)
  then have "(real n + 1 + \<bar>b\<bar>) * \<bar>x\<bar> * 2 \<le> (real n + 1) * (1 + \<bar>x\<bar>)"
    by (simp add: algebra_simps)
  then have "(real n + 1 + \<bar>b\<bar>) / (real n + 1) * \<bar>x\<bar> \<le> (1 + \<bar>x\<bar>) / 2"
    using pos by (simp add: field_simps)
  moreover have "(real n + 1 + \<bar>b\<bar>) / (real n + 1) = 1 + \<bar>b\<bar> / (real n + 1)"
    using pos by (simp add: field_simps)
  ultimately have key: "(1 + \<bar>b\<bar> / (real n + 1)) * \<bar>x\<bar> \<le> (1 + \<bar>x\<bar>) / 2"
    by simp
  have "norm (kernel_coeff b (Suc n) * x ^ Suc n)
      = \<bar>kernel_coeff b (Suc n)\<bar> * (\<bar>x\<bar> * \<bar>x\<bar> ^ n)"
    by (simp add: abs_mult power_abs)
  also have "\<dots> \<le> ((1 + \<bar>b\<bar> / (real n + 1)) * \<bar>kernel_coeff b n\<bar>) * (\<bar>x\<bar> * \<bar>x\<bar> ^ n)"
    by (intro mult_right_mono kernel_coeff_ratio) simp
  also have "\<dots> = ((1 + \<bar>b\<bar> / (real n + 1)) * \<bar>x\<bar>) * (\<bar>kernel_coeff b n\<bar> * \<bar>x\<bar> ^ n)"
    by (simp only: mult_ac)
  also have "\<dots> \<le> ((1 + \<bar>x\<bar>) / 2) * (\<bar>kernel_coeff b n\<bar> * \<bar>x\<bar> ^ n)"
    using key by (rule mult_right_mono) simp
  also have "\<dots> = (1 + \<bar>x\<bar>) / 2 * norm (kernel_coeff b n * x ^ n)"
    by (simp add: abs_mult power_abs)
  finally show "norm (kernel_coeff b (Suc n) * x ^ Suc n)
      \<le> (1 + \<bar>x\<bar>) / 2 * norm (kernel_coeff b n * x ^ n)" .
qed

lemma diffs_kernel_coeff:
  "diffs (kernel_coeff b) n = (real n + 1 - b) * kernel_coeff b n"
proof -
  have "real n + 1 \<noteq> 0" by linarith
  then show ?thesis
    by (simp add: diffs_def add.commute)
qed

lemma kernel_series_deriv:
  assumes x: "\<bar>x\<bar> < 1"
  shows "DERIV (kernel_series b) x :> (\<Sum>n. diffs (kernel_coeff b) n * x ^ n)"
proof -
  have K: "\<bar>(1 + \<bar>x\<bar>) / 2\<bar> < 1" using x by simp
  have "DERIV (\<lambda>x. \<Sum>n. kernel_coeff b n * x ^ n) x :> (\<Sum>n. diffs (kernel_coeff b) n * x ^ n)"
  proof (rule termdiffs_strong)
    show "summable (\<lambda>n. kernel_coeff b n * ((1 + \<bar>x\<bar>) / 2) ^ n)"
      using K by (rule kernel_series_summable)
    show "norm x < norm ((1 + \<bar>x\<bar>) / 2)" using x by simp
  qed
  then show ?thesis
    unfolding kernel_series_def [abs_def] .
qed

lemma kernel_series_ode:
  assumes x: "\<bar>x\<bar> < 1"
  shows "(1 - x) * (\<Sum>n. diffs (kernel_coeff b) n * x ^ n) = (1 - b) * kernel_series b x"
proof -
  let ?c = "kernel_coeff b"
  let ?D = "\<Sum>n. diffs ?c n * x ^ n"
  have sD: "summable (\<lambda>n. diffs ?c n * x ^ n)"
  proof (rule termdiff_converges [where K = 1])
    show "norm x < 1" using x by simp
    show "summable (\<lambda>n. ?c n * y ^ n)" if "norm y < 1" for y :: real
      using that by (intro kernel_series_summable) simp
  qed
  then have s1: "(\<lambda>n. diffs ?c n * x ^ n) sums ?D"
    by (rule summable_sums)
  have "(\<lambda>n. of_nat n * ?c n * x ^ (n - Suc 0)) sums ?D"
    using sD by (rule diffs_equiv)
  then have "(\<lambda>n. x * (of_nat n * ?c n * x ^ (n - Suc 0))) sums (x * ?D)"
    by (rule sums_mult)
  moreover have "x * (of_nat n * ?c n * x ^ (n - Suc 0)) = real n * ?c n * x ^ n" for n
    by (cases n) simp_all
  ultimately have s3: "(\<lambda>n. real n * ?c n * x ^ n) sums (x * ?D)"
    by simp
  have "(\<lambda>n. ?c n * x ^ n) sums kernel_series b x"
    unfolding kernel_series_def using x by (intro summable_sums kernel_series_summable)
  then have s4: "(\<lambda>n. (1 - b) * (?c n * x ^ n)) sums ((1 - b) * kernel_series b x)"
    by (rule sums_mult)
  have "(\<lambda>n. real n * ?c n * x ^ n + (1 - b) * (?c n * x ^ n))
      sums (x * ?D + (1 - b) * kernel_series b x)"
    using s3 s4 by (rule sums_add)
  moreover have "real n * ?c n * x ^ n + (1 - b) * (?c n * x ^ n) = diffs ?c n * x ^ n" for n
    by (simp add: diffs_kernel_coeff algebra_simps)
  ultimately have "(\<lambda>n. diffs ?c n * x ^ n) sums (x * ?D + (1 - b) * kernel_series b x)"
    by simp
  with s1 have "?D = x * ?D + (1 - b) * kernel_series b x"
    by (rule sums_unique2)
  then show ?thesis by (simp add: algebra_simps)
qed

lemma kernel_series_0: "kernel_series b 0 = 1"
  by (simp add: kernel_series_def)

lemma kernel_series_eq:
  assumes x: "\<bar>x\<bar> < 1"
  shows "kernel_series b x = (1 - x) powr (b - 1)"
proof -
  define h where "h t = kernel_series b t * (1 - t) powr (1 - b)" for t
  have dh: "DERIV h t :> 0" if t: "t \<in> {- 1 <..< 1}" for t
  proof -
    have t1: "\<bar>t\<bar> < 1" and pos: "0 < 1 - t" using t by auto
    let ?D = "\<Sum>n. diffs (kernel_coeff b) n * t ^ n"
    have "DERIV (\<lambda>t. (1 - t) powr (1 - b)) t :> (1 - b) * (1 - t) powr (1 - b - of_nat 1) * (0 - 1)"
      by (rule DERIV_fun_powr) (use pos in \<open>auto intro!: derivative_eq_intros\<close>)
    then have "DERIV h t :> ?D * (1 - t) powr (1 - b)
        + ((1 - b) * (1 - t) powr (1 - b - of_nat 1) * (0 - 1)) * kernel_series b t"
      unfolding h_def [abs_def] by (rule DERIV_mult [OF kernel_series_deriv [OF t1]])
    moreover have "?D * (1 - t) powr (1 - b)
        + ((1 - b) * (1 - t) powr (1 - b - of_nat 1) * (0 - 1)) * kernel_series b t = 0"
    proof -
      have "(1 - t) powr ((1 - b - 1) + 1) = (1 - t) powr (1 - b - 1) * (1 - t) powr 1"
        by (rule powr_add)
      then have p: "(1 - t) powr (1 - b) = (1 - t) powr (1 - b - 1) * (1 - t)"
        using pos by simp
      have "?D * (1 - t) powr (1 - b)
          + ((1 - b) * (1 - t) powr (1 - b - of_nat 1) * (0 - 1)) * kernel_series b t
          = (1 - t) powr (1 - b - 1) * ((1 - t) * ?D - (1 - b) * kernel_series b t)"
        by (subst p) (simp add: algebra_simps)
      also have "\<dots> = 0"
        using kernel_series_ode [OF t1, of b] by simp
      finally show ?thesis .
    qed
    ultimately show ?thesis by simp
  qed
  have "h x = h 0"
    by (rule DERIV_isconst3 [where a = "- 1" and b = 1]) (use x dh in auto)
  then have "kernel_series b x * (1 - x) powr (1 - b) = 1"
    by (simp add: h_def kernel_series_0)
  moreover have "(1 - x) powr (1 - b) * (1 - x) powr (b - 1) = 1"
    using x by (simp add: powr_add [symmetric])
  ultimately show ?thesis
    by (metis mult.assoc mult.left_neutral mult.right_neutral)
qed

subsection \<open>The incomplete Beta function\<close>

text \<open>
  For \<open>a > 0\<close> the function \<open>inc_beta a b\<close> vanishes at \<open>0\<close>, is continuous on every
  \<open>[0, u]\<close> with \<open>u < 1\<close>, and its derivative at \<open>x\<close> in \<open>(0, 1)\<close> is the kernel
  \<open>x powr (a - 1) * (1 - x) powr (b - 1)\<close>.
\<close>

lemma inc_series_summable:
  fixes x :: real
  assumes a: "0 < a" and x: "\<bar>x\<bar> < 1"
  shows "summable (\<lambda>n. kernel_coeff b n / (a + real n) * x ^ n)"
proof (rule summable_comparison_test' [where N = 0])
  have K: "\<bar>(1 + \<bar>x\<bar>) / 2\<bar> < 1" using x by simp
  have "summable (\<lambda>n. norm (kernel_coeff b n * x ^ n))"
  proof (rule powser_insidea)
    show "summable (\<lambda>n. kernel_coeff b n * ((1 + \<bar>x\<bar>) / 2) ^ n)"
      using K by (rule kernel_series_summable)
    show "norm x < norm ((1 + \<bar>x\<bar>) / 2)" using x by simp
  qed
  then show "summable (\<lambda>n. (1 / a) * norm (kernel_coeff b n * x ^ n))"
    by (rule summable_mult)
next
  fix n :: nat
  have pos: "0 < a + real n" using a by (simp add: add_pos_nonneg)
  have "a \<le> a + real n" by simp
  then have le: "1 / (a + real n) \<le> 1 / a"
    using a by (simp add: field_simps)
  have "kernel_coeff b n / (a + real n) * x ^ n = (1 / (a + real n)) * (kernel_coeff b n * x ^ n)"
    by simp
  then have "norm (kernel_coeff b n / (a + real n) * x ^ n)
      = norm (1 / (a + real n)) * norm (kernel_coeff b n * x ^ n)"
    by (simp only: norm_mult)
  also have "norm (1 / (a + real n)) = 1 / (a + real n)"
    using pos by simp
  finally have eq: "norm (kernel_coeff b n / (a + real n) * x ^ n)
      = (1 / (a + real n)) * norm (kernel_coeff b n * x ^ n)" .
  show "norm (kernel_coeff b n / (a + real n) * x ^ n)
      \<le> (1 / a) * norm (kernel_coeff b n * x ^ n)"
    unfolding eq using le by (rule mult_right_mono) simp
qed

lemma inc_series_deriv:
  assumes a: "0 < a" and x: "\<bar>x\<bar> < 1"
  shows "DERIV (inc_series a b) x :> (\<Sum>n. diffs (\<lambda>n. kernel_coeff b n / (a + real n)) n * x ^ n)"
proof -
  have K: "\<bar>(1 + \<bar>x\<bar>) / 2\<bar> < 1" using x by simp
  have "DERIV (\<lambda>x. \<Sum>n. kernel_coeff b n / (a + real n) * x ^ n) x
      :> (\<Sum>n. diffs (\<lambda>n. kernel_coeff b n / (a + real n)) n * x ^ n)"
  proof (rule termdiffs_strong)
    show "summable (\<lambda>n. kernel_coeff b n / (a + real n) * ((1 + \<bar>x\<bar>) / 2) ^ n)"
      using a K by (rule inc_series_summable)
    show "norm x < norm ((1 + \<bar>x\<bar>) / 2)" using x by simp
  qed
  then show ?thesis
    unfolding inc_series_def [abs_def] .
qed

lemma inc_series_ode:
  assumes a: "0 < a" and x: "\<bar>x\<bar> < 1"
  shows "a * inc_series a b x
           + x * (\<Sum>n. diffs (\<lambda>n. kernel_coeff b n / (a + real n)) n * x ^ n)
         = kernel_series b x"
proof -
  let ?d = "\<lambda>n. kernel_coeff b n / (a + real n)"
  let ?D = "\<Sum>n. diffs ?d n * x ^ n"
  have sD: "summable (\<lambda>n. diffs ?d n * x ^ n)"
  proof (rule termdiff_converges [where K = 1])
    show "norm x < 1" using x by simp
    show "summable (\<lambda>n. ?d n * y ^ n)" if "norm y < 1" for y :: real
      using a that by (intro inc_series_summable) simp_all
  qed
  have shift: "x * (of_nat n * ?d n * x ^ (n - Suc 0)) = real n * ?d n * x ^ n" for n
    by (cases n) simp_all
  have "(\<lambda>n. of_nat n * ?d n * x ^ (n - Suc 0)) sums ?D"
    using sD by (rule diffs_equiv)
  then have "(\<lambda>n. x * (of_nat n * ?d n * x ^ (n - Suc 0))) sums (x * ?D)"
    by (rule sums_mult)
  then have s1: "(\<lambda>n. real n * ?d n * x ^ n) sums (x * ?D)"
    by (simp only: shift)
  have "(\<lambda>n. ?d n * x ^ n) sums inc_series a b x"
    unfolding inc_series_def using a x by (intro summable_sums inc_series_summable)
  then have s2: "(\<lambda>n. a * (?d n * x ^ n)) sums (a * inc_series a b x)"
    by (rule sums_mult)
  have tm: "a * (?d n * x ^ n) + real n * ?d n * x ^ n = kernel_coeff b n * x ^ n" for n
  proof -
    have "0 < a + real n" using a by (simp add: add_pos_nonneg)
    then have "(a + real n) * ?d n = kernel_coeff b n" by simp
    then have "((a + real n) * ?d n) * x ^ n = kernel_coeff b n * x ^ n" by simp
    then show ?thesis by (simp only: distrib_right mult.assoc)
  qed
  have "(\<lambda>n. a * (?d n * x ^ n) + real n * ?d n * x ^ n) sums (a * inc_series a b x + x * ?D)"
    using s2 s1 by (rule sums_add)
  then have "(\<lambda>n. kernel_coeff b n * x ^ n) sums (a * inc_series a b x + x * ?D)"
    by (simp only: tm)
  moreover have "(\<lambda>n. kernel_coeff b n * x ^ n) sums kernel_series b x"
    unfolding kernel_series_def using x by (intro summable_sums kernel_series_summable)
  ultimately show ?thesis
    by (rule sums_unique2)
qed

lemma inc_beta_deriv:
  assumes a: "0 < a" and x: "0 < x" "x < 1"
  shows "DERIV (inc_beta a b) x :> x powr (a - 1) * (1 - x) powr (b - 1)"
proof -
  have x1: "\<bar>x\<bar> < 1" using x by simp
  let ?D = "\<Sum>n. diffs (\<lambda>n. kernel_coeff b n / (a + real n)) n * x ^ n"
  have "DERIV (\<lambda>x. x powr a) x :> a * x powr (a - 1)"
    using x(1) by (rule has_real_derivative_powr)
  then have "DERIV (\<lambda>x. x powr a * inc_series a b x) x
      :> a * x powr (a - 1) * inc_series a b x + ?D * x powr a"
    by (rule DERIV_mult [OF _ inc_series_deriv [OF a x1]])
  moreover have "a * x powr (a - 1) * inc_series a b x + ?D * x powr a
      = x powr (a - 1) * (1 - x) powr (b - 1)"
  proof -
    have "x powr ((a - 1) + 1) = x powr (a - 1) * x powr 1"
      by (rule powr_add)
    then have p: "x powr a = x powr (a - 1) * x"
      using x(1) by simp
    have "a * x powr (a - 1) * inc_series a b x + ?D * x powr a
        = x powr (a - 1) * (a * inc_series a b x + x * ?D)"
      by (subst p) (simp add: algebra_simps)
    also have "\<dots> = x powr (a - 1) * kernel_series b x"
      by (simp only: inc_series_ode [OF a x1])
    finally show ?thesis
      by (simp add: kernel_series_eq [OF x1])
  qed
  ultimately show ?thesis
    unfolding inc_beta_def [abs_def] by simp
qed

lemma inc_beta_0: "0 < a \<Longrightarrow> inc_beta a b 0 = 0"
  by (simp add: inc_beta_def)

lemma inc_beta_continuous:
  assumes a: "0 < a" and u: "u < 1"
  shows "continuous_on {0..u} (inc_beta a b)"
proof -
  have "continuous_on {0..u} (\<lambda>x. x powr a)"
    using a by (intro continuous_on_powr' continuous_intros) auto
  moreover have "continuous_on {0..u} (inc_series a b)"
  proof (rule continuous_at_imp_continuous_on, rule ballI)
    fix x assume "x \<in> {0..u}"
    then have x1: "\<bar>x\<bar> < 1" using u by auto
    show "isCont (inc_series a b) x"
      using inc_series_deriv [OF a x1] by (rule DERIV_isCont)
  qed
  ultimately show ?thesis
    unfolding inc_beta_def [abs_def] by (rule continuous_on_mult)
qed

lemma inc_beta_differentiable:
  assumes "0 < a" "0 < x" "x < 1"
  shows "inc_beta a b differentiable (at x)"
  unfolding real_differentiable_def using inc_beta_deriv [OF assms] by blast

lemma inc_beta_pos:
  assumes a: "0 < a"
  shows "0 < inc_beta a b (1 / 2)"
proof -
  have "\<exists>l z. 0 < z \<and> z < 1 / 2 \<and> DERIV (inc_beta a b) z :> l \<and>
      inc_beta a b (1 / 2) - inc_beta a b 0 = (1 / 2 - 0) * l"
  proof (rule MVT)
    show "continuous_on {0..1 / 2} (inc_beta a b)"
      using a by (rule inc_beta_continuous) simp
    show "inc_beta a b differentiable (at x)" if "0 < x" "x < 1 / 2" for x
      using a that by (intro inc_beta_differentiable) simp_all
  qed simp
  then obtain l z where z: "0 < z" "z < 1 / 2" and d: "DERIV (inc_beta a b) z :> l"
    and eq: "inc_beta a b (1 / 2) - inc_beta a b 0 = (1 / 2 - 0) * l"
    by blast
  have "DERIV (inc_beta a b) z :> z powr (a - 1) * (1 - z) powr (b - 1)"
    using a z by (intro inc_beta_deriv) simp_all
  with d have "l = z powr (a - 1) * (1 - z) powr (b - 1)"
    by (rule DERIV_unique)
  then have "0 < l" using z by simp
  with eq show ?thesis
    using a by (simp add: inc_beta_0)
qed

lemma inc_beta_compare:
  assumes p: "0 < p" and pp: "p \<le> p'" and qq: "q' \<le> q"
  shows "inc_beta p' q' (1 / 2) \<le> (1 / 2) powr (p' - p + (q' - q)) * inc_beta p q (1 / 2)"
proof -
  define k :: real where "k = (1 / 2) powr (p' - p + (q' - q))"
  define D where "D x = k * inc_beta p q x - inc_beta p' q' x" for x
  have p': "0 < p'" using p pp by simp
  have dD: "DERIV D x :> k * (x powr (p - 1) * (1 - x) powr (q - 1))
      - x powr (p' - 1) * (1 - x) powr (q' - 1)" if "0 < x" "x < 1 / 2" for x
    unfolding D_def [abs_def]
    by (intro DERIV_diff DERIV_cmult inc_beta_deriv) (use p p' that in simp_all)
  have "\<exists>l z. 0 < z \<and> z < 1 / 2 \<and> DERIV D z :> l \<and> D (1 / 2) - D 0 = (1 / 2 - 0) * l"
  proof (rule MVT)
    have "continuous_on {0..1 / 2} (inc_beta p q)" "continuous_on {0..1 / 2} (inc_beta p' q')"
      using p p' by (simp_all add: inc_beta_continuous)
    then show "continuous_on {0..1 / 2} D"
      unfolding D_def [abs_def] by (intro continuous_intros)
    show "D differentiable (at x)" if "0 < x" "x < 1 / 2" for x
      unfolding real_differentiable_def using dD [OF that] by blast
  qed simp
  then obtain l z where z: "0 < z" "z < 1 / 2" and d: "DERIV D z :> l"
    and eq: "D (1 / 2) - D 0 = (1 / 2 - 0) * l"
    by blast
  let ?K = "z powr (p - 1) * (1 - z) powr (q - 1)"
  have l: "l = k * ?K - z powr (p' - 1) * (1 - z) powr (q' - 1)"
    using d dD [OF z] by (rule DERIV_unique)
  have "z powr (p' - p) \<le> (1 / 2) powr (p' - p)"
    using pp z by (intro powr_mono2) simp_all
  moreover have "(1 - z) powr (q' - q) \<le> (1 / 2) powr (q' - q)"
    using qq z by (intro powr_mono2') simp_all
  ultimately have "z powr (p' - p) * (1 - z) powr (q' - q)
      \<le> (1 / 2) powr (p' - p) * (1 / 2) powr (q' - q)"
    by (intro mult_mono) simp_all
  also have "\<dots> = k"
    by (simp add: k_def powr_add)
  finally have r: "z powr (p' - p) * (1 - z) powr (q' - q) \<le> k" .
  have "z powr ((p - 1) + (p' - p)) = z powr (p - 1) * z powr (p' - p)"
    and "(1 - z) powr ((q - 1) + (q' - q)) = (1 - z) powr (q - 1) * (1 - z) powr (q' - q)"
    by (rule powr_add)+
  then have "z powr (p' - 1) * (1 - z) powr (q' - 1)
      = ?K * (z powr (p' - p) * (1 - z) powr (q' - q))"
    by (simp add: mult_ac)
  also have "\<dots> \<le> ?K * k"
    using r by (rule mult_left_mono) simp
  finally have "0 \<le> l"
    by (simp add: l mult.commute)
  with eq have "D 0 \<le> D (1 / 2)"
    by simp
  then show ?thesis
    using p p' by (simp add: D_def inc_beta_0 k_def)
qed

subsection \<open>The Beta distribution function at one half\<close>

text \<open>
  Raising the first shape parameter and lowering the second moves mass to the right: the
  distribution function at one half does not grow. The kernel of the new parameters is
  the old one times \<open>t powr d * (1 - t) powr e\<close> with \<open>d \<ge> 0 \<ge> e\<close>, a factor that is
  nondecreasing in \<open>t\<close>, so it is at most its value \<open>k\<close> at one half on the left half and
  at least \<open>k\<close> on the right half (lemma \<open>inc_beta_compare\<close>, by the mean value theorem).
\<close>

lemma beta_cdf_half:
  "beta_cdf a b (1 / 2) = inc_beta a b (1 / 2) / (inc_beta a b (1 / 2) + inc_beta b a (1 / 2))"
  by (simp add: beta_cdf_def)

lemma beta_cdf_half_antimono:
  assumes a: "0 < a" "a \<le> a'" and b: "0 < b'" "b' \<le> b"
  shows "beta_cdf a' b' (1 / 2) \<le> beta_cdf a b (1 / 2)"
proof -
  define k :: real where "k = (1 / 2) powr (a' - a + (b' - b))"
  define P where "P = inc_beta a b (1 / 2)"
  define Q where "Q = inc_beta b a (1 / 2)"
  define P' where "P' = inc_beta a' b' (1 / 2)"
  define Q' where "Q' = inc_beta b' a' (1 / 2)"
  have pos: "0 < P" "0 < Q" "0 < P'" "0 < Q'"
    using a b by (simp_all add: P_def Q_def P'_def Q'_def inc_beta_pos)
  have k: "0 < k" by (simp add: k_def)
  have 1: "P' \<le> k * P"
    unfolding P_def P'_def k_def using a(1) a(2) b(2) by (rule inc_beta_compare)
  have q: "Q \<le> (1 / 2) powr (b - b' + (a - a')) * Q'"
    unfolding Q_def Q'_def using b(1) b(2) a(2) by (rule inc_beta_compare)
  have i: "(1 / 2) powr (b - b' + (a - a')) * k = 1"
    unfolding k_def by (simp add: powr_add [symmetric])
  have "k * Q \<le> k * ((1 / 2) powr (b - b' + (a - a')) * Q')"
    using q k by (intro mult_left_mono) simp_all
  also have "\<dots> = ((1 / 2) powr (b - b' + (a - a')) * k) * Q'"
    by (simp only: mult_ac)
  finally have 2: "k * Q \<le> Q'"
    by (simp add: i)
  have "P' * Q \<le> (k * P) * Q"
    using 1 pos by (intro mult_right_mono) simp_all
  also have "\<dots> = P * (k * Q)" by (simp only: mult_ac)
  also have "\<dots> \<le> P * Q'"
    using 2 pos by (intro mult_left_mono) simp_all
  finally have "P' * (P + Q) \<le> P * (P' + Q')"
    by (simp add: algebra_simps)
  then have "P' / (P' + Q') \<le> P / (P + Q)"
    using pos by (simp add: field_simps)
  then show ?thesis
    by (simp add: beta_cdf_half P_def Q_def P'_def Q'_def)
qed

subsection \<open>The Beta distribution function on the unit interval\<close>

text \<open>
  \<open>beta_cdf a b\<close> is the distribution function of the Beta distribution: continuous on
  \<open>[0, 1]\<close>, \<open>0\<close> at \<open>0\<close>, \<open>1\<close> at \<open>1\<close>, with the normalised kernel as derivative.
\<close>

lemma complete_beta_pos: "0 < a \<Longrightarrow> 0 < b \<Longrightarrow> 0 < complete_beta a b"
  by (simp add: complete_beta_def add_pos_pos inc_beta_pos)

lemma inc_beta_split:
  assumes a: "0 < a" and b: "0 < b" and x: "0 < x" "x < 1"
  shows "inc_beta a b x + inc_beta b a (1 - x) = complete_beta a b"
proof -
  define H where "H x = inc_beta a b x + inc_beta b a (1 - x)" for x
  have dH: "DERIV H t :> 0" if t: "t \<in> {0 <..< 1}" for t
  proof -
    have t01: "0 < t" "t < 1" "0 < 1 - t" "1 - t < 1" using t by auto
    have 1: "DERIV (inc_beta a b) t :> t powr (a - 1) * (1 - t) powr (b - 1)"
      using a t01 by (intro inc_beta_deriv)
    have "DERIV (inc_beta b a) (1 - t) :> (1 - t) powr (b - 1) * (1 - (1 - t)) powr (a - 1)"
      using b t01 by (intro inc_beta_deriv)
    moreover have "DERIV (\<lambda>t. 1 - t) t :> 0 - 1"
      by (intro derivative_intros)
    ultimately have 2: "DERIV (\<lambda>t. inc_beta b a (1 - t)) t
        :> (1 - t) powr (b - 1) * (1 - (1 - t)) powr (a - 1) * (0 - 1)"
      by (rule DERIV_chain2)
    have "DERIV H t :> t powr (a - 1) * (1 - t) powr (b - 1)
        + (1 - t) powr (b - 1) * (1 - (1 - t)) powr (a - 1) * (0 - 1)"
      unfolding H_def [abs_def] using 1 2 by (rule DERIV_add)
    then show ?thesis by simp
  qed
  have "H x = H (1 / 2)"
    by (rule DERIV_isconst3 [where a = 0 and b = 1]) (use x dH in auto)
  then show ?thesis
    by (simp add: H_def complete_beta_def)
qed

lemma beta_cdf_lower:
  assumes a: "0 < a" and b: "0 < b" and x: "0 \<le> x" "x < 1"
  shows "beta_cdf a b x = inc_beta a b x / complete_beta a b"
proof (cases "x = 0")
  case True
  then show ?thesis using a by (simp add: beta_cdf_def inc_beta_0)
next
  case False
  then have "0 < x" using x by simp
  then show ?thesis
    using x by (simp add: beta_cdf_def inc_beta_split [OF a b])
qed

lemma beta_cdf_upper:
  assumes a: "0 < a" and b: "0 < b" and x: "0 < x" "x \<le> 1"
  shows "beta_cdf a b x = 1 - inc_beta b a (1 - x) / complete_beta a b"
proof (cases "x = 1")
  case True
  then show ?thesis using b by (simp add: beta_cdf_def inc_beta_0)
next
  case False
  then have x1: "x < 1" using x by simp
  have B: "complete_beta a b \<noteq> 0"
    using complete_beta_pos [OF a b] by simp
  have "inc_beta a b x = complete_beta a b - inc_beta b a (1 - x)"
    using inc_beta_split [OF a b x(1) x1] by simp
  then have "inc_beta a b x / complete_beta a b = 1 - inc_beta b a (1 - x) / complete_beta a b"
    using B by (simp add: field_simps)
  then show ?thesis
    using x x1 by (simp add: beta_cdf_lower [OF a b])
qed

lemma beta_cdf_density:
  assumes a: "0 < a" and b: "0 < b" and x: "0 < x" "x < 1"
  shows "DERIV (beta_cdf a b) x :> x powr (a - 1) * (1 - x) powr (b - 1) / complete_beta a b"
proof -
  have "eventually (\<lambda>y. y \<in> {0 <..< 1}) (nhds x)"
    using x by (intro eventually_nhds_in_open) simp_all
  then have ev: "eventually (\<lambda>y. beta_cdf a b y = inc_beta a b y / complete_beta a b) (nhds x)"
    by (rule eventually_mono) (simp add: beta_cdf_lower [OF a b])
  have "DERIV (\<lambda>y. inc_beta a b y / complete_beta a b) x
      :> x powr (a - 1) * (1 - x) powr (b - 1) / complete_beta a b"
    using a x by (intro DERIV_cdivide inc_beta_deriv)
  then show ?thesis
    by (subst DERIV_cong_ev [OF refl ev refl])
qed

lemma beta_cdf_continuous:
  assumes a: "0 < a" and b: "0 < b"
  shows "continuous_on {0..1} (beta_cdf a b)"
proof -
  have lo: "continuous_on {0..1 / 2} (beta_cdf a b)"
  proof -
    have "continuous_on {0..1 / 2} (\<lambda>x. inc_beta a b x / complete_beta a b)"
      using a by (intro continuous_on_divide inc_beta_continuous continuous_on_const)
        (simp_all add: complete_beta_pos [OF a b, THEN less_imp_neq, symmetric])
    moreover have "continuous_on {0..1 / 2} (beta_cdf a b)
        \<longleftrightarrow> continuous_on {0..1 / 2} (\<lambda>x. inc_beta a b x / complete_beta a b)"
      by (rule continuous_on_cong) (simp_all add: beta_cdf_lower [OF a b])
    ultimately show ?thesis by simp
  qed
  have hi: "continuous_on {1 / 2..1} (beta_cdf a b)"
  proof -
    have "continuous_on {0..1 / 2} (inc_beta b a)"
      using b by (rule inc_beta_continuous) simp
    then have "continuous_on {1 / 2..1} (\<lambda>x. inc_beta b a (1 - x))"
      by (rule continuous_on_compose2) (auto intro!: continuous_intros)
    then have "continuous_on {1 / 2..1} (\<lambda>x. 1 - inc_beta b a (1 - x) / complete_beta a b)"
      by (intro continuous_on_diff continuous_on_divide continuous_on_const)
        (simp_all add: complete_beta_pos [OF a b, THEN less_imp_neq, symmetric])
    moreover have "continuous_on {1 / 2..1} (beta_cdf a b)
        \<longleftrightarrow> continuous_on {1 / 2..1} (\<lambda>x. 1 - inc_beta b a (1 - x) / complete_beta a b)"
      by (rule continuous_on_cong) (simp_all add: beta_cdf_upper [OF a b])
    ultimately show ?thesis by simp
  qed
  have "continuous_on ({0..1 / 2} \<union> {1 / 2..1}) (beta_cdf a b)"
    using lo hi by (intro continuous_on_closed_Un) simp_all
  moreover have "{0..1 / 2} \<union> {1 / 2..1} = {0..1::real}"
    by auto
  ultimately show ?thesis by simp
qed

lemma beta_cdf_ends: "beta_cdf a b 0 = 0" "beta_cdf a b 1 = 1"
  by (simp_all add: beta_cdf_def)

text \<open>
  Two values, from the polynomial primitives of the kernels: \<open>Beta(4, 2)\<close> has mass
  \<open>3/16\<close> below one half and \<open>Beta(2, 4)\<close>, its mirror image, has \<open>13/16\<close>.
\<close>

lemma inc_beta_4_2: "inc_beta 4 2 (1 / 2) = 3 / 320"
proof -
  define F :: "real \<Rightarrow> real" where "F x = x ^ 4 / 4 - x ^ 5 / 5" for x
  define G where "G x = inc_beta 4 2 x - F x" for x
  have dF: "DERIV F x :> x ^ 3 * (1 - x)" for x
    unfolding F_def [abs_def]
    by (auto intro!: derivative_eq_intros simp: algebra_simps power_eq_if)
  have dG: "DERIV G x :> 0" if "0 < x" "x < 1 / 2" for x
  proof -
    have "DERIV (inc_beta 4 2) x :> x powr (4 - 1) * (1 - x) powr (2 - 1)"
      using that by (intro inc_beta_deriv) simp_all
    moreover have "x powr (4 - 1) * (1 - x) powr (2 - 1) = x ^ 3 * (1 - x)"
      using that by (simp add: powr_numeral)
    ultimately have "DERIV G x :> x ^ 3 * (1 - x) - x ^ 3 * (1 - x)"
      unfolding G_def [abs_def] by (intro DERIV_diff dF) simp
    then show ?thesis by simp
  qed
  have "G (1 / 2) = G 0"
  proof (rule DERIV_isconst2 [where a = 0 and b = "1 / 2"])
    have "continuous_on {0..1 / 2} (inc_beta 4 2)"
      by (rule inc_beta_continuous) simp_all
    moreover have "continuous_on {0..1 / 2} F"
      unfolding F_def [abs_def] by (intro continuous_intros) simp_all
    ultimately show "continuous_on {0..1 / 2} G"
      unfolding G_def [abs_def] by (intro continuous_intros)
  qed (use dG in simp_all)
  then show ?thesis
    by (simp add: G_def F_def inc_beta_0 power_eq_if)
qed

lemma inc_beta_2_4: "inc_beta 2 4 (1 / 2) = 13 / 320"
proof -
  define F :: "real \<Rightarrow> real" where "F x = x ^ 2 / 2 - x ^ 3 + 3 * x ^ 4 / 4 - x ^ 5 / 5" for x
  define G where "G x = inc_beta 2 4 x - F x" for x
  have dF: "DERIV F x :> x * (1 - x) ^ 3" for x
    unfolding F_def [abs_def]
    by (auto intro!: derivative_eq_intros simp: algebra_simps power_eq_if)
  have dG: "DERIV G x :> 0" if "0 < x" "x < 1 / 2" for x
  proof -
    have "DERIV (inc_beta 2 4) x :> x powr (2 - 1) * (1 - x) powr (4 - 1)"
      using that by (intro inc_beta_deriv) simp_all
    moreover have "x powr (2 - 1) * (1 - x) powr (4 - 1) = x * (1 - x) ^ 3"
      using that by (simp add: powr_numeral)
    ultimately have "DERIV G x :> x * (1 - x) ^ 3 - x * (1 - x) ^ 3"
      unfolding G_def [abs_def] by (intro DERIV_diff dF) simp
    then show ?thesis by simp
  qed
  have "G (1 / 2) = G 0"
  proof (rule DERIV_isconst2 [where a = 0 and b = "1 / 2"])
    have "continuous_on {0..1 / 2} (inc_beta 2 4)"
      by (rule inc_beta_continuous) simp_all
    moreover have "continuous_on {0..1 / 2} F"
      unfolding F_def [abs_def] by (intro continuous_intros) simp_all
    ultimately show "continuous_on {0..1 / 2} G"
      unfolding G_def [abs_def] by (intro continuous_intros)
  qed (use dG in simp_all)
  then show ?thesis
    by (simp add: G_def F_def inc_beta_0 power_eq_if)
qed

lemma beta_cdf_4_2: "beta_cdf 4 2 (1 / 2) = 3 / 16"
  by (simp add: beta_cdf_half inc_beta_4_2 inc_beta_2_4)

lemma beta_cdf_2_4: "beta_cdf 2 4 (1 / 2) = 13 / 16"
  by (simp add: beta_cdf_half inc_beta_4_2 inc_beta_2_4)


subsection \<open>Prior parameters\<close>

text \<open>
  Claim C1, as stated: for an infeasible variance, \<open>sigma\<^sup>2 \<ge> mu * (1 - mu)\<close>, such as
  \<open>mu = 0.5\<close>, \<open>sigma = 0.9\<close>, \<open>alpha_beta\<close> fails with an invalid-prior error and
  returns no value. The code has no such check: at \<open>mu = 1/2\<close>, \<open>sigma = 9/10\<close> it
  returns the pair \<open>(-28/81, -28/81)\<close>.
\<close>

theorem alpha_beta_infeasible_counterexample:
  "alpha_beta (1 / 2) (9 / 10) = Inr (- (28 / 81), - (28 / 81))"
  by (simp add: alpha_beta_def Let_def power2_eq_square)

text \<open>
  Claim C1, amended: for \<open>mu\<close> in \<open>(0, 1)\<close>, \<open>sigma \<noteq> 0\<close> and an infeasible variance
  \<open>sigma\<^sup>2 \<ge> mu * (1 - mu)\<close>, \<open>alpha_beta\<close> raises nothing and returns the pair of the
  two formulas, with \<open>alpha \<le> 0\<close> and \<open>beta \<le> 0\<close>.
\<close>

theorem alpha_beta_infeasible:
  assumes "0 < mu" "mu < 1" "sigma \<noteq> 0" "mu * (1 - mu) \<le> sigma ^ 2"
  shows "\<exists>alpha beta. alpha_beta mu sigma = Inr (alpha, beta) \<and> alpha \<le> 0 \<and> beta \<le> 0"
proof -
  let ?a = "mu ^ 2 * ((1 - mu) / sigma ^ 2 - 1 / mu)"
  have s: "0 < sigma ^ 2" using assms(3) by simp
  have eq: "alpha_beta mu sigma = Inr (?a, ?a * (1 / mu - 1))"
    using assms by (simp add: alpha_beta_Inr)
  have "(1 - mu) / sigma ^ 2 \<le> 1 / mu"
    using assms s by (simp add: field_simps)
  then have a: "?a \<le> 0"
    by (simp add: mult_nonneg_nonpos)
  have "0 \<le> 1 / mu - 1" using assms by (simp add: field_simps)
  with a have "?a * (1 / mu - 1) \<le> 0"
    by (rule mult_nonpos_nonneg)
  with eq a show ?thesis by blast
qed

theorem alpha_beta_infeasible_witness:
  "\<exists>alpha beta. alpha_beta (1 / 2) (9 / 10) = Inr (alpha, beta) \<and> alpha \<le> 0 \<and> beta \<le> 0"
  using alpha_beta_infeasible [of "1 / 2" "9 / 10"] by (simp add: power2_eq_square)

text \<open>
  Claim C4: for \<open>mu\<close> in \<open>(0, 1)\<close> and \<open>sigma > 0\<close> with \<open>sigma\<^sup>2 < mu * (1 - mu)\<close>,
  \<open>alpha_beta\<close> returns \<open>alpha > 0\<close> and \<open>beta > 0\<close>, and the implied mean
  \<open>alpha / (alpha + beta)\<close> is \<open>mu\<close> (exactly, over the reals).
\<close>

theorem alpha_beta_positive:
  assumes "0 < mu" "mu < 1" "0 < sigma" "sigma ^ 2 < mu * (1 - mu)"
  shows "\<exists>alpha beta. alpha_beta mu sigma = Inr (alpha, beta) \<and> 0 < alpha \<and> 0 < beta
           \<and> alpha / (alpha + beta) = mu"
proof -
  define a where "a = mu ^ 2 * ((1 - mu) / sigma ^ 2 - 1 / mu)"
  have s: "0 < sigma ^ 2" using assms(3) by simp
  have eq: "alpha_beta mu sigma = Inr (a, a * (1 / mu - 1))"
    using assms by (simp add: alpha_beta_Inr a_def)
  have "1 / mu < (1 - mu) / sigma ^ 2"
    using assms s by (simp add: field_simps)
  then have a: "0 < a"
    using assms by (simp add: a_def)
  have "0 < 1 / mu - 1" using assms by (simp add: field_simps)
  with a have b: "0 < a * (1 / mu - 1)"
    by (rule mult_pos_pos)
  have "a + a * (1 / mu - 1) = a / mu"
    using assms by (simp add: field_simps)
  then have "a / (a + a * (1 / mu - 1)) = mu"
    using a assms by simp
  with eq a b show ?thesis by blast
qed

theorem alpha_beta_positive_witness:
  "\<exists>alpha beta. alpha_beta (2 / 5) (1 / 20) = Inr (alpha, beta) \<and> 0 < alpha \<and> 0 < beta
           \<and> alpha / (alpha + beta) = 2 / 5"
  using alpha_beta_positive [of "2 / 5" "1 / 20"] by (simp add: power2_eq_square)

text \<open>
  Claim C9: \<open>alpha_beta\<close> is mirror-symmetric about \<open>mu = 1/2\<close>: for \<open>mu\<close> in
  \<open>(0, 1)\<close> and \<open>sigma > 0\<close>, if \<open>alpha_beta mu sigma\<close> is \<open>(alpha, beta)\<close> then
  \<open>alpha_beta (1 - mu) sigma\<close> is \<open>(beta, alpha)\<close>.
\<close>

theorem alpha_beta_mirror:
  assumes "0 < mu" "mu < 1" "0 < sigma" "alpha_beta mu sigma = Inr (alpha, beta)"
  shows "alpha_beta (1 - mu) sigma = Inr (beta, alpha)"
proof -
  have s: "sigma ^ 2 \<noteq> 0" using assms(3) by simp
  have m: "mu \<noteq> 0" "1 - mu \<noteq> 0" using assms by simp_all
  have "Inr (alpha, beta) =
      (Inr (mu ^ 2 * ((1 - mu) / sigma ^ 2 - 1 / mu),
            mu ^ 2 * ((1 - mu) / sigma ^ 2 - 1 / mu) * (1 / mu - 1)) :: error + real \<times> real)"
    using assms(4) m s by (auto simp: alpha_beta_Inr)
  then have a: "alpha = mu ^ 2 * ((1 - mu) / sigma ^ 2 - 1 / mu)"
    and b: "beta = mu ^ 2 * ((1 - mu) / sigma ^ 2 - 1 / mu) * (1 / mu - 1)"
    by auto
  have a': "(1 - mu) ^ 2 * ((1 - (1 - mu)) / sigma ^ 2 - 1 / (1 - mu)) = beta"
    unfolding b using s m by (simp add: field_simps power2_eq_square)
  have "(1 / mu - 1) * (1 / (1 - mu) - 1) = 1"
    using m by (simp add: field_simps)
  then have "alpha * ((1 / mu - 1) * (1 / (1 - mu) - 1)) = alpha"
    by simp
  then have b': "beta * (1 / (1 - mu) - 1) = alpha"
    unfolding b a by (simp only: mult.assoc)
  have "alpha_beta (1 - mu) sigma =
      Inr ((1 - mu) ^ 2 * ((1 - (1 - mu)) / sigma ^ 2 - 1 / (1 - mu)),
           (1 - mu) ^ 2 * ((1 - (1 - mu)) / sigma ^ 2 - 1 / (1 - mu)) * (1 / (1 - mu) - 1))"
    using m s by (intro alpha_beta_Inr) simp_all
  then show ?thesis
    by (simp only: a' b')
qed

theorem alpha_beta_mirror_witness:
  "alpha_beta (2 / 5) (1 / 10) = Inr (46 / 5, 69 / 5) \<and>
   alpha_beta (1 - 2 / 5) (1 / 10) = Inr (69 / 5, 46 / 5)"
proof -
  have h: "alpha_beta (2 / 5) (1 / 10) = Inr (46 / 5, 69 / 5)"
    by (simp add: alpha_beta_def Let_def power2_eq_square)
  show ?thesis
    using h alpha_beta_mirror [of "2 / 5" "1 / 10" "46 / 5" "69 / 5"] by simp
qed

subsection \<open>Winning probabilities\<close>

text \<open>
  Claim C2: for every prior \<open>(mu, sigma)\<close> (here: every one on which \<open>alpha_beta\<close> does
  not divide by zero), every \<open>T\<close>, \<open>f\<close> and sequence \<open>xs\<close>, \<open>winning_probabilities\<close>
  returns a sequence as long as \<open>xs\<close> whose \<open>i\<close>-th element is \<open>1 - CDF(0.5)\<close> of the Beta
  distribution with parameters \<open>(alpha + c * xs[i], beta + c * (1 - xs[i]))\<close>, where
  \<open>(alpha, beta) = alpha_beta(mu, sigma)\<close> and \<open>c = T * f\<close>. It holds for whatever function
  computes the distribution function.
\<close>

theorem winning_probabilities_pointwise:
  assumes "mu \<noteq> 0" "sigma \<noteq> 0"
  shows "\<exists>alpha beta ws.
           alpha_beta mu sigma = Inr (alpha, beta) \<and>
           winning_probabilities cdf mu sigma T f xs = Inr ws \<and>
           length ws = length xs \<and>
           (\<forall>i<length xs.
              ws ! i = 1 - cdf (alpha + T * f * xs ! i) (beta + T * f * (1 - xs ! i)) (1 / 2))"
proof -
  obtain alpha beta where ab: "alpha_beta mu sigma = Inr (alpha, beta)"
    using assms alpha_beta_Inr by blast
  let ?ws = "map (\<lambda>x. 1 - cdf (alpha + T * f * x) (beta + (T * f - T * f * x)) (1 / 2)) xs"
  have "winning_probabilities cdf mu sigma T f xs = Inr ?ws"
    using ab by (rule winning_probabilities_Inr)
  moreover have "length ?ws = length xs" by simp
  moreover have "\<forall>i<length xs.
      ?ws ! i = 1 - cdf (alpha + T * f * xs ! i) (beta + T * f * (1 - xs ! i)) (1 / 2)"
    by (simp add: right_diff_distrib)
  ultimately show ?thesis using ab by blast
qed

theorem winning_probabilities_pointwise_witness:
  "winning_probabilities beta_cdf (2 / 5) (1 / 10) 100 (1 / 10) [2 / 5, 3 / 5] =
     Inr [1 - beta_cdf (66 / 5) (99 / 5) (1 / 2), 1 - beta_cdf (76 / 5) (89 / 5) (1 / 2)]"
proof -
  obtain alpha beta ws where
    ab: "alpha_beta (2 / 5) (1 / 10) = Inr (alpha, beta)" and
    w: "winning_probabilities beta_cdf (2 / 5) (1 / 10) 100 (1 / 10) [2 / 5, 3 / 5] = Inr ws" and
    len: "length ws = length [2 / 5, 3 / 5 :: real]" and
    nth: "\<forall>i<length [2 / 5, 3 / 5 :: real].
            ws ! i = 1 - beta_cdf (alpha + 100 * (1 / 10) * [2 / 5, 3 / 5] ! i)
                       (beta + 100 * (1 / 10) * (1 - [2 / 5, 3 / 5] ! i)) (1 / 2)"
    using winning_probabilities_pointwise [of "2 / 5" "1 / 10" beta_cdf 100 "1 / 10" "[2 / 5, 3 / 5]"]
    by auto
  from ab have a: "alpha = 46 / 5" and b: "beta = 69 / 5"
    by (simp_all add: alpha_beta_example)
  from len obtain p q where ws: "ws = [p, q]"
    by (cases ws; cases "tl ws") auto
  from nth have "ws ! 0 = 1 - beta_cdf (66 / 5) (99 / 5) (1 / 2)"
    and "ws ! 1 = 1 - beta_cdf (76 / 5) (89 / 5) (1 / 2)"
    by (simp_all add: a b)
  with ws w show ?thesis by simp
qed

text \<open>
  Claim C3: for a fixed valid prior and a fixed count state of the specification
  (\<open>total_votes \<ge> 0\<close> and \<open>fraction_counted\<close> in \<open>[0, 1]\<close>), the winning probability is
  nondecreasing in \<open>fraction_in_favor\<close>: if \<open>0 \<le> x1 \<le> x2 \<le> 1\<close> then the probability
  computed for \<open>x1\<close> is at most the one computed for \<open>x2\<close>. The distribution function
  is the Beta distribution function \<open>beta_cdf\<close>.
\<close>

theorem winning_probabilities_monotone:
  assumes prior: "0 < mu" "mu < 1" "0 < sigma" "sigma ^ 2 < mu * (1 - mu)"
    and votes: "0 \<le> T" "0 \<le> f" "f \<le> 1"
    and x: "0 \<le> x1" "x1 \<le> x2" "x2 \<le> 1"
  shows "\<exists>p1 p2. winning_probabilities beta_cdf mu sigma T f [x1, x2] = Inr [p1, p2] \<and> p1 \<le> p2"
proof -
  define alpha where "alpha = mu ^ 2 * ((1 - mu) / sigma ^ 2 - 1 / mu)"
  define beta where "beta = alpha * (1 / mu - 1)"
  define c where "c = T * f"
  have ab: "alpha_beta mu sigma = Inr (alpha, beta)"
    using prior by (simp add: alpha_beta_Inr alpha_def beta_def)
  have "1 / mu < (1 - mu) / sigma ^ 2"
    using prior by (simp add: field_simps)
  then have alpha: "0 < alpha"
    using prior by (simp add: alpha_def)
  have "0 < 1 / mu - 1" using prior by (simp add: field_simps)
  with alpha have beta: "0 < beta"
    unfolding beta_def by (rule mult_pos_pos)
  have c: "0 \<le> c" using votes by (simp add: c_def)
  have "0 \<le> c * x1" using c x by simp
  with alpha have 1: "0 < alpha + c * x1" by simp
  have 2: "alpha + c * x1 \<le> alpha + c * x2"
    using c x by (simp add: mult_left_mono)
  have "0 \<le> c * (1 - x2)" using c x by simp
  with beta have 3: "0 < beta + (c - c * x2)"
    by (simp add: algebra_simps)
  have 4: "beta + (c - c * x2) \<le> beta + (c - c * x1)"
    using c x by (simp add: mult_left_mono)
  have "beta_cdf (alpha + c * x2) (beta + (c - c * x2)) (1 / 2)
      \<le> beta_cdf (alpha + c * x1) (beta + (c - c * x1)) (1 / 2)"
    using 1 2 3 4 by (rule beta_cdf_half_antimono)
  then have "1 - beta_cdf (alpha + c * x1) (beta + (c - c * x1)) (1 / 2)
      \<le> 1 - beta_cdf (alpha + c * x2) (beta + (c - c * x2)) (1 / 2)"
    by simp
  moreover have "winning_probabilities beta_cdf mu sigma T f [x1, x2] =
      Inr [1 - beta_cdf (alpha + c * x1) (beta + (c - c * x1)) (1 / 2),
           1 - beta_cdf (alpha + c * x2) (beta + (c - c * x2)) (1 / 2)]"
    by (simp add: winning_probabilities_Inr [OF ab] c_def)
  ultimately show ?thesis by blast
qed

theorem winning_probabilities_monotone_witness:
  "\<exists>p1 p2. winning_probabilities beta_cdf (2 / 5) (1 / 20) 100000 (1 / 100) [2 / 5, 3 / 5]
             = Inr [p1, p2] \<and> p1 \<le> p2"
  using winning_probabilities_monotone [of "2 / 5" "1 / 20" 100000 "1 / 100" "2 / 5" "3 / 5"]
  by (simp add: power2_eq_square)

text \<open>
  Claim C5: when \<open>fraction_counted = 0\<close> or \<open>total_votes = 0\<close>, the result is the same
  for every element of the input sequence and is the prior's
  \<open>1 - BetaCDF(alpha, beta, 0.5)\<close>.
\<close>

theorem no_counted_votes_prior:
  assumes "mu \<noteq> 0" "sigma \<noteq> 0" "f = 0 \<or> T = 0"
  shows "\<exists>alpha beta.
           alpha_beta mu sigma = Inr (alpha, beta) \<and>
           winning_probabilities cdf mu sigma T f xs =
             Inr (replicate (length xs) (1 - cdf alpha beta (1 / 2)))"
proof -
  obtain alpha beta where ab: "alpha_beta mu sigma = Inr (alpha, beta)"
    using assms alpha_beta_Inr by blast
  have c: "T * f = 0" using assms(3) by auto
  have "winning_probabilities cdf mu sigma T f xs =
      Inr (map (\<lambda>x. 1 - cdf alpha beta (1 / 2)) xs)"
    using winning_probabilities_Inr [OF ab, of cdf T f xs] by (simp add: c)
  then show ?thesis
    using ab by (auto simp: map_replicate_const)
qed

theorem no_counted_votes_prior_witness:
  "winning_probabilities beta_cdf (2 / 5) (1 / 10) 100000 0 [2 / 5, 1 / 2, 3 / 5] =
     Inr [1 - beta_cdf (46 / 5) (69 / 5) (1 / 2), 1 - beta_cdf (46 / 5) (69 / 5) (1 / 2),
          1 - beta_cdf (46 / 5) (69 / 5) (1 / 2)]"
proof -
  obtain alpha beta where
    ab: "alpha_beta (2 / 5) (1 / 10) = Inr (alpha, beta)" and
    w: "winning_probabilities beta_cdf (2 / 5) (1 / 10) 100000 0 [2 / 5, 1 / 2, 3 / 5] =
          Inr (replicate (length [2 / 5, 1 / 2, 3 / 5 :: real]) (1 - beta_cdf alpha beta (1 / 2)))"
    using no_counted_votes_prior [of "2 / 5" "1 / 10" 0 100000 beta_cdf "[2 / 5, 1 / 2, 3 / 5]"]
    by auto
  from ab have "alpha = 46 / 5" and "beta = 69 / 5"
    by (simp_all add: alpha_beta_example)
  with w show ?thesis by (simp add: numeral_3_eq_3)
qed

text \<open>
  Claim C6, as stated: the estimator rejects, before any computation, a call with
  \<open>fraction_counted\<close> or a \<open>fraction_in_favor\<close> outside \<open>[0, 1]\<close> or with negative
  \<open>total_votes\<close>. The code checks none of them: with \<open>total_votes = -2\<close>, with
  \<open>fraction_counted = 2\<close> and with \<open>fraction_in_favor = 2\<close> it builds the posterior
  distribution and returns a probability.
\<close>

theorem no_validation_counterexample:
  "winning_probabilities beta_cdf (1 / 2) (1 / 6) (- 2) (1 / 2) [1 / 2] =
     Inr [1 - beta_cdf (7 / 2) (7 / 2) (1 / 2)] \<and>
   posteriors (1 / 2) (1 / 6) (- 2) (1 / 2) [1 / 2] = Inr [(7 / 2, 7 / 2)] \<and>
   winning_probabilities beta_cdf (1 / 2) (1 / 6) 1 2 [1 / 2] = Inr [1 - beta_cdf 5 5 (1 / 2)] \<and>
   posteriors (1 / 2) (1 / 6) 1 2 [1 / 2] = Inr [(5, 5)] \<and>
   winning_probabilities beta_cdf (1 / 2) (1 / 6) 1 1 [2] = Inr [1 - beta_cdf 6 3 (1 / 2)] \<and>
   posteriors (1 / 2) (1 / 6) 1 1 [2] = Inr [(6, 3)]"
  by (simp add: winning_probabilities_Inr [OF alpha_beta_example_half]
      posteriors_Inr [OF alpha_beta_example_half])

text \<open>
  Claim C6, amended: the estimator validates none of \<open>total_votes\<close>,
  \<open>fraction_counted\<close> and \<open>fractions_in_favor\<close>. Whatever their values, it returns one
  probability for each fraction exactly when \<open>mu \<noteq> 0\<close> and \<open>sigma \<noteq> 0\<close>; its only failure
  is the division by zero of the prior.
\<close>

theorem no_validation:
  "(\<exists>ws. winning_probabilities cdf mu sigma T f xs = Inr ws \<and> length ws = length xs)
     = (mu \<noteq> 0 \<and> sigma \<noteq> 0)"
proof (cases "mu = 0 \<or> sigma = 0")
  case True
  then have "alpha_beta mu sigma = Inl ZeroDivisionError"
    by (simp add: alpha_beta_Inl_iff)
  then have "winning_probabilities cdf mu sigma T f xs = Inl ZeroDivisionError"
    by (simp add: winning_probabilities_def)
  with True show ?thesis by auto
next
  case False
  then obtain alpha beta where ab: "alpha_beta mu sigma = Inr (alpha, beta)"
    using alpha_beta_Inr by blast
  show ?thesis
    using False by (simp add: winning_probabilities_Inr [OF ab])
qed

theorem no_validation_witness:
  "\<exists>ws. winning_probabilities beta_cdf (1 / 2) (1 / 6) (- 2) (3 / 2) [2, - 1] = Inr ws \<and>
        length ws = length [2, - 1 :: real]"
  using no_validation [of beta_cdf "1 / 2" "1 / 6" "- 2" "3 / 2" "[2, - 1]"] by simp

subsection \<open>Line roles\<close>

text \<open>
  Claim C7: \<open>line 0 2\<close> is LOW and \<open>line 1 2\<close> is HIGH, and no index is MID when there are
  exactly two series; for \<open>total_count \<noteq> 2\<close> and \<open>median = (total_count - 1) / 2\<close>, an
  index below \<open>median - 0.5\<close> is LOW, an index above \<open>median + 0.5\<close> is HIGH and any other
  index is MID; in particular \<open>line 2 5\<close> is MID, \<open>line 0 5\<close> is LOW and \<open>line 4 5\<close> is
  HIGH.
\<close>

theorem line_roles:
  "line 0 2 = LOW \<and> line 1 2 = HIGH \<and> (\<forall>i. line i 2 \<noteq> MID) \<and>
   (\<forall>i total_count. total_count \<noteq> 2 \<longrightarrow>
      (real_of_int i < (real_of_int total_count - 1) / 2 - 1 / 2 \<longrightarrow> line i total_count = LOW) \<and>
      (real_of_int i > (real_of_int total_count - 1) / 2 + 1 / 2 \<longrightarrow> line i total_count = HIGH) \<and>
      (\<not> real_of_int i < (real_of_int total_count - 1) / 2 - 1 / 2 \<and>
       \<not> real_of_int i > (real_of_int total_count - 1) / 2 + 1 / 2 \<longrightarrow> line i total_count = MID)) \<and>
   line 2 5 = MID \<and> line 0 5 = LOW \<and> line 4 5 = HIGH"
  by (simp add: line_def LOW_def HIGH_def MID_def Let_def)

theorem line_roles_witness:
  "(4::int) \<noteq> 2 \<and> line 0 4 = LOW \<and> line 3 4 = HIGH \<and> line 1 4 = MID \<and> line 2 4 = MID"
proof -
  have "\<forall>i total_count. total_count \<noteq> 2 \<longrightarrow>
      (real_of_int i < (real_of_int total_count - 1) / 2 - 1 / 2 \<longrightarrow> line i total_count = LOW) \<and>
      (real_of_int i > (real_of_int total_count - 1) / 2 + 1 / 2 \<longrightarrow> line i total_count = HIGH) \<and>
      (\<not> real_of_int i < (real_of_int total_count - 1) / 2 - 1 / 2 \<and>
       \<not> real_of_int i > (real_of_int total_count - 1) / 2 + 1 / 2 \<longrightarrow> line i total_count = MID)"
    using line_roles by blast
  from this [rule_format, of 4 0] this [rule_format, of 4 3] this [rule_format, of 4 1]
    this [rule_format, of 4 2]
  show ?thesis by simp
qed

subsection \<open>Counted votes\<close>

text \<open>
  Claim C8: the result depends on \<open>total_votes\<close> and \<open>fraction_counted\<close> only through
  their product: if \<open>T1 * f1 = T2 * f2\<close> then the two calls return the same.
\<close>

theorem winning_probabilities_product:
  "T1 * f1 = T2 * f2 \<Longrightarrow>
   winning_probabilities cdf mu sigma T1 f1 xs = winning_probabilities cdf mu sigma T2 f2 xs"
  unfolding winning_probabilities_def Let_def by (erule subst) (rule refl)

theorem winning_probabilities_product_witness:
  "(100::real) * (1 / 10) = 20 * (1 / 2) \<and>
   winning_probabilities beta_cdf (2 / 5) (1 / 10) 100 (1 / 10) [2 / 5, 3 / 5] =
   winning_probabilities beta_cdf (2 / 5) (1 / 10) 20 (1 / 2) [2 / 5, 3 / 5]"
  using winning_probabilities_product [of 100 "1 / 10" 20 "1 / 2" beta_cdf "2 / 5" "1 / 10" "[2 / 5, 3 / 5]"]
  by simp

text \<open>
  Claim C10: for every prior (every one on which \<open>alpha_beta\<close> does not divide by zero),
  \<open>total_votes\<close> and \<open>fraction_counted\<close>, \<open>winning_probabilities\<close> on the empty sequence
  returns the empty sequence, and builds no posterior distribution.
\<close>

theorem winning_probabilities_empty:
  assumes "mu \<noteq> 0" "sigma \<noteq> 0"
  shows "winning_probabilities cdf mu sigma T f [] = Inr [] \<and> posteriors mu sigma T f [] = Inr []"
proof -
  obtain alpha beta where ab: "alpha_beta mu sigma = Inr (alpha, beta)"
    using assms alpha_beta_Inr by blast
  show ?thesis
    by (simp add: winning_probabilities_Inr [OF ab] posteriors_Inr [OF ab])
qed

theorem winning_probabilities_empty_witness:
  "winning_probabilities beta_cdf (2 / 5) (1 / 20) 100000 (1 / 100) [] = Inr [] \<and>
   posteriors (2 / 5) (1 / 20) 100000 (1 / 100) [] = Inr []"
  using winning_probabilities_empty [of "2 / 5" "1 / 20" beta_cdf 100000 "1 / 100"] by simp

end
